theory Spec2Isabelle
  imports Main "HOL-Library.Word"
begin

unbundle bit_operations_syntax

section \<open>Shared types\<close>

text \<open>
  The decoders work on bytes (\<open>uint8\<close>), on \<open>uint16\<close>/\<open>int16\<close> header and sample
  values and on Go's 64-bit \<open>int\<close>. Bytes and fixed-width values are words; values of Go
  type \<open>int\<close> are modelled as \<open>int\<close> (all of them stay far below \<open>2 ^ 63\<close> in the decoders:
  widths are at most 17 or rejected, counters are bounded by the 32 KB block length).
  Every error value of package \<open>itmod\<close> that the decoders can return is a constructor of
  \<open>error\<close>; \<open>EOF\<close> and \<open>ErrUnexpectedEOF\<close> are the two errors of \<open>io.ReadFull\<close>, and
  \<open>Panic\<close> stands for a Go run-time panic (negative shift count).
\<close>

type_synonym byte = "8 word"

datatype error =
    ErrEndOfStream | ErrBadParam | ErrDecodingError | ErrInvalidSource
  | EOF | ErrUnexpectedEOF | Panic

section \<open>The bit stream\<close>

text \<open>
  \<open>type bitstream struct { source []byte; readPos int; buffer uint64; buffered int }\<close>.
  \<open>readPos\<close> only ever counts up from zero and is used as an index, so it is a \<open>nat\<close>;
  \<open>buffered\<close> is compared with the signed \<open>width\<close> argument and stays an \<open>int\<close>.
\<close>

record bitstream =
  source :: "byte list"
  readPos :: nat
  buffer :: "64 word"
  buffered :: int

definition createBitstream :: "byte list \<Rightarrow> bitstream" where
  "createBitstream src = \<lparr>source = src, readPos = 0, buffer = 0, buffered = 0\<rparr>"

text \<open>
  The \<open>for bs.buffered < width\<close> loop of \<open>read\<close>. The receiver is a pointer, so the bytes
  pulled into the buffer stay there even when the loop gives up; the flag tells whether
  the loop ended normally (\<open>True\<close>) or by \<open>return 0, ErrEndOfStream\<close> (\<open>False\<close>).
  A Go shift by 64 or more gives 0, as \<open>push_bit\<close> on a 64-bit word does.
\<close>

function refill :: "bitstream \<Rightarrow> int \<Rightarrow> bool \<times> bitstream" where
  "refill bs width =
     (if buffered bs < width then
        (if readPos bs \<ge> length (source bs) then (False, bs)
         else refill (bs\<lparr>buffer := buffer bs OR push_bit (nat (buffered bs)) (ucast (source bs ! readPos bs)),
                         readPos := readPos bs + 1,
                         buffered := buffered bs + 8\<rparr>) width)
      else (True, bs))"
  by pat_completeness auto
termination
  by (relation "measure (\<lambda>(bs, w). length (source bs) - readPos bs)") auto

declare refill.simps [simp del]

text \<open>\<open>func (bs *bitstream) read(width int) (uint32, error)\<close>: the result and the stream
  as the call leaves it.\<close>

definition read :: "bitstream \<Rightarrow> int \<Rightarrow> (error + 32 word) \<times> bitstream" where
  "read bs width =
    (if width < 0 \<or> width \<ge> 32 then (Inl ErrBadParam, bs)
     else case refill bs width of
       (False, bs') \<Rightarrow> (Inl ErrEndOfStream, bs')
     | (True, bs') \<Rightarrow>
         (Inr (ucast (buffer bs' AND (push_bit (nat width) 1 - 1))),
          bs'\<lparr>buffer := drop_bit (nat width) (buffer bs'), buffered := buffered bs' - width\<rparr>))"

text \<open>A caller's sequence of \<open>read\<close> calls on one stream, each result kept, failed calls
  included.\<close>

fun reads :: "bitstream \<Rightarrow> int list \<Rightarrow> (error + 32 word) list \<times> bitstream" where
  "reads bs [] = ([], bs)"
| "reads bs (w # ws) =
     (case read bs w of (r, bs') \<Rightarrow> (case reads bs' ws of (rs, bs'') \<Rightarrow> (r # rs, bs'')))"

text \<open>The stream a caller holds after creating it on \<open>src\<close> and making the calls \<open>ws\<close>.\<close>

definition stream_after :: "byte list \<Rightarrow> int list \<Rightarrow> bitstream" where
  "stream_after src ws = snd (reads (createBitstream src) ws)"

subsection \<open>What the stream still holds\<close>

text \<open>
  The unread part of the stream as one number: the bytes in little-endian order
  (\<open>le_val\<close>, byte 0 lowest, bit 0 of each byte lowest), below them the bits waiting in
  the buffer. \<open>avail\<close> counts those bits. \<open>recombine\<close> puts the values of consecutive
  reads back together, each shifted by the widths read before it.
\<close>

fun le_val :: "byte list \<Rightarrow> nat" where
  "le_val [] = 0"
| "le_val (b # bs) = unat b + 256 * le_val bs"

definition pending :: "bitstream \<Rightarrow> nat" where
  "pending bs = unat (buffer bs) + 2 ^ nat (buffered bs) * le_val (drop (readPos bs) (source bs))"

definition avail :: "bitstream \<Rightarrow> int" where
  "avail bs = buffered bs + 8 * (int (length (source bs)) - int (readPos bs))"

fun recombine :: "int list \<Rightarrow> 32 word list \<Rightarrow> nat" where
  "recombine (w # ws) (v # vs) = unat v + 2 ^ nat w * recombine ws vs"
| "recombine _ _ = 0"

text \<open>The invariant of a stream between two calls: the buffer holds exactly \<open>buffered\<close>
  bits, at most 30 of them.\<close>

definition bs_inv :: "bitstream \<Rightarrow> bool" where
  "bs_inv bs \<longleftrightarrow> 0 \<le> buffered bs \<and> buffered bs \<le> 30 \<and>
     unat (buffer bs) < 2 ^ nat (buffered bs) \<and> readPos bs \<le> length (source bs)"

subsection \<open>Word arithmetic of the buffer\<close>

lemma nat_bit_less: "(a::nat) < 2 ^ n \<Longrightarrow> n \<le> k \<Longrightarrow> \<not> bit a k"
proof -
  assume a: "a < 2 ^ n" and k: "n \<le> k"
  have "(2::nat) ^ n \<le> 2 ^ k" using k by (intro power_increasing) auto
  then have "a < 2 ^ k" using a by linarith
  then show "\<not> bit a k" by (simp add: bit_iff_odd)
qed

lemma nat_and_push: "(a::nat) < 2 ^ n \<Longrightarrow> a AND push_bit n c = 0"
  by (rule bit_eqI) (auto simp: bit_and_iff bit_push_bit_iff dest: nat_bit_less) 

lemma nat_or_push: "(a::nat) < 2 ^ n \<Longrightarrow> a OR push_bit n c = a + 2 ^ n * c"
  using disjunctive_add_eq_or[OF nat_and_push, of a n c] by (simp add: push_bit_eq_mult mult.commute)

lemma unat_push_byte:
  fixes x :: byte
  assumes "n \<le> 56"
  shows "unat (push_bit n (ucast x :: 64 word)) = push_bit n (unat x)"
proof -
  have x8: "unat x < 2 ^ 8" using unsigned_less[of x, where ?'a=nat] by simp
  then have "2 ^ n * unat x < 2 ^ n * 2 ^ 8" by simp
  also have "\<dots> = 2 ^ (n + 8)" by (simp add: power_add)
  also have "\<dots> \<le> (2::nat) ^ 64" using assms by (intro power_increasing) auto
  finally have lt: "2 ^ n * unat x < (2::nat) ^ 64" .
  have "unat x < 2 ^ 64" using x8 by simp
  then have ux: "unat (ucast x :: 64 word) = unat x" by (simp add: unsigned_ucast_eq take_bit_nat_eq_self)
  have a: "unat (push_bit n (ucast x :: 64 word)) = take_bit 64 (push_bit n (unat x))"
    using ux by (subst unsigned_push_bit_eq) simp
  have b: "push_bit n (unat x) < 2 ^ 64" using lt by (simp add: push_bit_eq_mult mult.commute)
  show ?thesis unfolding a using b by (rule take_bit_nat_eq_self)
qed

lemma or_push: 
  fixes b :: "64 word" and x :: byte
  assumes "unat b < 2 ^ n" "n \<le> 56"
  shows "unat (b OR push_bit n (ucast x)) = unat b + 2 ^ n * unat x"
proof -
  have "unat (b OR push_bit n (ucast x)) = unat b OR unat (push_bit n (ucast x :: 64 word))"
    by (rule unsigned_or_eq)
  also have "\<dots> = unat b OR push_bit n (unat x)" using assms(2) by (simp only: unat_push_byte)
  also have "\<dots> = unat b + 2 ^ n * unat x" using assms(1) by (rule nat_or_push)
  finally show ?thesis .
qed

lemma low_mask: "(push_bit n 1 - 1 :: 64 word) = mask n"
  by (simp add: mask_eq_decr_exp)

lemma unat_low_bits:
  fixes b :: "64 word"
  assumes "n < 32"
  shows "unat (ucast (b AND (push_bit n 1 - 1)) :: 32 word) = unat b mod 2 ^ n"
proof -
  have "unat b mod 2 ^ n < 2 ^ n" by simp
  also have "(2::nat) ^ n \<le> 2 ^ 32" using assms by (intro power_increasing) auto
  finally have lt: "unat b mod 2 ^ n < 2 ^ 32" .
  have "b AND mask n = take_bit n b" by (rule take_bit_eq_mask[symmetric])
  then have "unat (b AND mask n) = take_bit n (unat b)" by (simp only: unsigned_take_bit_eq)
  then have "unat (b AND mask n) = unat b mod 2 ^ n" by (simp only: take_bit_eq_mod)
  then show ?thesis using lt
    by (simp only: low_mask unsigned_ucast_eq) (simp add: take_bit_nat_eq_self)
qed

lemma unat_drop: 
  fixes b :: "64 word"
  shows "unat (drop_bit n b) = unat b div 2 ^ n"
  by (subst unat_drop_bit_eq) (rule drop_bit_eq_div)


subsection \<open>The refill loop and one read\<close>

lemma le_val_drop:
  "p < length src \<Longrightarrow> le_val (drop p src) = unat (src ! p) + 256 * le_val (drop (Suc p) src)"
  by (simp add: Cons_nth_drop_Suc[symmetric])

lemma refill_spec:
  "0 \<le> buffered bs \<Longrightarrow> unat (buffer bs) < 2 ^ nat (buffered bs) \<Longrightarrow>
   readPos bs \<le> length (source bs) \<Longrightarrow> w \<le> 31 \<Longrightarrow> refill bs w = (ok, bs') \<Longrightarrow>
   0 \<le> buffered bs' \<and> unat (buffer bs') < 2 ^ nat (buffered bs') \<and>
   readPos bs' \<le> length (source bs') \<and>
   pending bs' = pending bs \<and> avail bs' = avail bs \<and> source bs' = source bs \<and>
   (ok \<longleftrightarrow> w \<le> avail bs) \<and> (ok \<longrightarrow> w \<le> buffered bs') \<and>
   (\<not> ok \<longrightarrow> buffered bs' < w) \<and> buffered bs' \<le> max (buffered bs) (w + 7)"
proof (induction bs w arbitrary: ok bs' rule: refill.induct)
  case (1 bs width)
  show ?case
  proof (cases "buffered bs < width")
    case False
    with "1.prems"(5) have "ok" "bs' = bs" by (simp_all add: refill.simps[of bs width])
    then show ?thesis using False "1.prems" by (auto simp: avail_def)
  next
    case lt: True
    show ?thesis
    proof (cases "length (source bs) \<le> readPos bs")
      case True
      with lt "1.prems"(5) have "\<not> ok" "bs' = bs" by (simp_all add: refill.simps[of bs width])
      then show ?thesis using True lt "1.prems" by (auto simp: avail_def)
    next
      case False
      define n where "n = nat (buffered bs)"
      define x where "x = source bs ! readPos bs"
      define bs1 where "bs1 = bs\<lparr>buffer := buffer bs OR push_bit (nat (buffered bs)) (ucast (source bs ! readPos bs)),
                         readPos := readPos bs + 1, buffered := buffered bs + 8\<rparr>"
      have r: "refill bs1 width = (ok, bs')"
        using lt False "1.prems"(5) by (simp add: refill.simps[of bs width] bs1_def)
      have n56: "n \<le> 56" using lt "1.prems"(4) "1.prems"(1) by (simp add: n_def)
      have bn: "unat (buffer bs) < 2 ^ n" using "1.prems"(2) by (simp add: n_def)
      have b1: "unat (buffer bs1) = unat (buffer bs) + 2 ^ n * unat x"
        using or_push[OF bn n56, of x] by (simp add: bs1_def n_def x_def)
      have n1: "nat (buffered bs1) = n + 8" using "1.prems"(1) by (simp add: bs1_def n_def)
      have x8: "unat x < 256" using unsigned_less[of x, where ?'a=nat] by simp
      have "unat (buffer bs) + 2 ^ n * unat x < 2 ^ n + 2 ^ n * unat x" using bn by simp
      also have "\<dots> = 2 ^ n * (unat x + 1)" by simp
      also have "\<dots> \<le> 2 ^ n * 256" using x8 by (intro mult_le_mono2) simp
      finally have lt1: "unat (buffer bs1) < 2 ^ nat (buffered bs1)"
        by (simp add: b1 n1 power_add)
      have p1: "pending bs1 = pending bs"
        using False by (simp add: pending_def b1 n1 power_add le_val_drop x_def[symmetric] n_def[symmetric] algebra_simps)
           (simp add: bs1_def x_def n_def algebra_simps)
      have a1: "avail bs1 = avail bs" using False by (simp add: avail_def bs1_def)
      have s1: "source bs1 = source bs" by (simp add: bs1_def)
      have rp1: "readPos bs1 \<le> length (source bs1)" using False by (simp add: bs1_def)
      have nn1: "0 \<le> buffered bs1" using "1.prems"(1) by (simp add: bs1_def)
      have bb1: "buffered bs1 = buffered bs + 8" by (simp add: bs1_def)
      have IH: "0 \<le> buffered bs' \<and> unat (buffer bs') < 2 ^ nat (buffered bs') \<and>
         readPos bs' \<le> length (source bs') \<and>
         pending bs' = pending bs1 \<and> avail bs' = avail bs1 \<and> source bs' = source bs1 \<and>
         (ok \<longleftrightarrow> width \<le> avail bs1) \<and> (ok \<longrightarrow> width \<le> buffered bs') \<and>
         (\<not> ok \<longrightarrow> buffered bs' < width) \<and> buffered bs' \<le> max (buffered bs1) (width + 7)"
        using "1.IH"[OF lt False, folded bs1_def, OF nn1 lt1 rp1 "1.prems"(4) r] .
      then show ?thesis using p1 a1 s1 bb1 lt by auto
    qed
  qed
qed

lemma split_low:
  fixes B L :: nat
  assumes "w \<le> b"
  shows "(B + 2 ^ b * L) mod 2 ^ w = B mod 2 ^ w"
    and "(B + 2 ^ b * L) div 2 ^ w = B div 2 ^ w + 2 ^ (b - w) * L"
proof -
  have e: "(2::nat) ^ b = 2 ^ w * 2 ^ (b - w)" using assms by (simp add: power_add[symmetric])
  show "(B + 2 ^ b * L) mod 2 ^ w = B mod 2 ^ w" by (simp add: e mult.assoc)
  show "(B + 2 ^ b * L) div 2 ^ w = B div 2 ^ w + 2 ^ (b - w) * L" by (simp add: e mult.assoc)
qed

lemma div_pow_less:
  fixes B :: nat
  assumes "B < 2 ^ b" "w \<le> b"
  shows "B div 2 ^ w < 2 ^ (b - w)"
proof -
  have e: "(2::nat) ^ b = 2 ^ (b - w) * 2 ^ w" using assms(2) by (simp add: power_add[symmetric])
  show ?thesis using assms(1) unfolding e by (simp add: less_mult_imp_div_less)
qed

lemma read_BadParam: "w < 0 \<or> 32 \<le> w \<Longrightarrow> read bs w = (Inl ErrBadParam, bs)"
  by (simp add: read_def)

lemma read_spec:
  assumes inv: "bs_inv bs" and w: "0 \<le> w" "w < 32" and rd: "read bs w = (r, bs')"
  shows "bs_inv bs' \<and> source bs' = source bs \<and>
     (if w \<le> avail bs
      then (\<exists>v. r = Inr v \<and> unat v = pending bs mod 2 ^ nat w) \<and>
           pending bs' = pending bs div 2 ^ nat w \<and> avail bs' = avail bs - w
      else r = Inl ErrEndOfStream \<and> pending bs' = pending bs \<and> avail bs' = avail bs)"
proof -
  obtain ok bs1 where f: "refill bs w = (ok, bs1)" by (cases "refill bs w")
  have pre: "0 \<le> buffered bs" "unat (buffer bs) < 2 ^ nat (buffered bs)"
    "readPos bs \<le> length (source bs)" "buffered bs \<le> 30"
    using inv by (simp_all add: bs_inv_def)
  have w31: "w \<le> 31" using w by simp
  note S = refill_spec[OF pre(1,2,3) w31 f]
  show ?thesis
  proof (cases ok)
    case False
    then have "r = Inl ErrEndOfStream" "bs' = bs1" using rd f w by (simp_all add: read_def)
    then show ?thesis using S False w by (auto simp: bs_inv_def)
  next
    case True
    define b where "b = nat (buffered bs1)"
    define n where "n = nat w"
    have "w \<le> buffered bs1" using S True by blast
    then have nb: "n \<le> b" using w by (simp add: b_def n_def)
    have n32: "n < 32" using w by (simp add: n_def)
    have r: "r = Inr (ucast (buffer bs1 AND (push_bit n 1 - 1)))"
      and bs': "bs' = bs1\<lparr>buffer := drop_bit n (buffer bs1), buffered := buffered bs1 - w\<rparr>"
      using rd f w True by (simp_all add: read_def n_def)
    have B: "unat (buffer bs1) < 2 ^ b" using S by (simp add: b_def)
    have P: "pending bs1 = unat (buffer bs1) + 2 ^ b * le_val (drop (readPos bs1) (source bs1))"
      by (simp add: pending_def b_def)
    have nb': "nat (buffered bs1 - w) = b - n" using S True w by (simp add: b_def n_def nat_diff_distrib)
    have Sp: "pending bs1 = pending bs" using S by blast
    have 1: "unat (ucast (buffer bs1 AND (push_bit n 1 - 1)) :: 32 word) = pending bs mod 2 ^ n"
      unfolding unat_low_bits[OF n32] Sp[symmetric] P by (rule split_low(1)[OF nb, symmetric])
    have "pending bs' = unat (buffer bs1) div 2 ^ n + 2 ^ (b - n) * le_val (drop (readPos bs1) (source bs1))"
      by (simp add: bs' pending_def nb' unat_drop)
    also have "\<dots> = pending bs1 div 2 ^ n" unfolding P by (rule split_low(2)[OF nb, symmetric])
    finally have 2: "pending bs' = pending bs div 2 ^ n" by (simp only: Sp)
    have 3: "unat (buffer bs') < 2 ^ nat (buffered bs')"
      using div_pow_less[OF B nb] by (simp add: bs' nb' unat_drop)
    have "avail bs' = avail bs1 - w" by (simp add: bs' avail_def)
    then have 4: "avail bs' = avail bs - w" using S by simp
    have 5: "0 \<le> buffered bs' \<and> buffered bs' \<le> 30" using S True pre(4) w by (auto simp: bs')
    have 6: "source bs' = source bs \<and> readPos bs' \<le> length (source bs')" using S by (auto simp: bs')
    have 7: "w \<le> avail bs" using S True by blast
    show ?thesis using 1 2 3 4 5 6 7 r by (auto simp: bs_inv_def n_def)
  qed
qed


subsection \<open>Sequences of reads\<close>

lemma bs_inv_create: "bs_inv (createBitstream src)"
  by (simp add: bs_inv_def createBitstream_def)

lemma pending_create: "pending (createBitstream src) = le_val src"
  by (simp add: pending_def createBitstream_def)

lemma avail_create: "avail (createBitstream src) = 8 * int (length src)"
  by (simp add: avail_def createBitstream_def)

lemma read_spec':
  assumes "bs_inv bs" "0 \<le> w" "w < 32"
  shows "bs_inv (snd (read bs w)) \<and> source (snd (read bs w)) = source bs \<and>
     (if w \<le> avail bs
      then (\<exists>v. fst (read bs w) = Inr v \<and> unat v = pending bs mod 2 ^ nat w) \<and>
           pending (snd (read bs w)) = pending bs div 2 ^ nat w \<and>
           avail (snd (read bs w)) = avail bs - w
      else fst (read bs w) = Inl ErrEndOfStream \<and> pending (snd (read bs w)) = pending bs \<and>
           avail (snd (read bs w)) = avail bs)"
  by (rule read_spec[OF assms]) simp

lemma reads_Cons_fst:
  "fst (reads bs (w # ws)) = fst (read bs w) # fst (reads (snd (read bs w)) ws)"
  by (simp split: prod.splits)

lemma reads_Cons_snd: "snd (reads bs (w # ws)) = snd (reads (snd (read bs w)) ws)"
  by (simp split: prod.splits)

lemma read_inv: "bs_inv bs \<Longrightarrow> bs_inv (snd (read bs w))"
proof (cases "0 \<le> w \<and> w < 32")
  case True
  assume "bs_inv bs"
  then show ?thesis using read_spec'[of bs w] True by simp
next
  case False
  assume "bs_inv bs"
  then show ?thesis using False read_BadParam[of w bs] by auto
qed

lemma reads_inv: "bs_inv bs \<Longrightarrow> bs_inv (snd (reads bs ws))"
proof (induction ws arbitrary: bs)
  case Nil
  then show ?case by simp
next
  case (Cons w ws)
  from Cons.IH[OF read_inv[OF Cons.prems, of w]] show ?case
    by (simp only: reads_Cons_snd)
qed

lemma read_equiv:
  assumes "bs_inv a" "bs_inv b" "pending a = pending b" "avail a = avail b"
  shows "fst (read a w) = fst (read b w) \<and> pending (snd (read a w)) = pending (snd (read b w))
     \<and> avail (snd (read a w)) = avail (snd (read b w))"
proof (cases "0 \<le> w \<and> w < 32")
  case False
  then show ?thesis using assms read_BadParam[of w] by auto
next
  case True
  have w: "0 \<le> w" "w < 32" using True by auto
  note A = read_spec'[OF assms(1) w]
  note B = read_spec'[OF assms(2) w]
  show ?thesis
  proof (cases "w \<le> avail a")
    case le: True
    have leb: "w \<le> avail b" using le assms(4) by simp
    obtain va where va: "fst (read a w) = Inr va" "unat va = pending a mod 2 ^ nat w"
      using A le by auto
    obtain vb where vb: "fst (read b w) = Inr vb" "unat vb = pending b mod 2 ^ nat w"
      using B leb by auto
    have "va = vb" using va(2) vb(2) assms(3) by (simp add: word_unat_eq_iff)
    moreover have "pending (snd (read a w)) = pending a div 2 ^ nat w" 
      "avail (snd (read a w)) = avail a - w" using A le by auto
    moreover have "pending (snd (read b w)) = pending b div 2 ^ nat w" 
      "avail (snd (read b w)) = avail b - w" using B leb by auto
    ultimately show ?thesis using va(1) vb(1) assms(3,4) by simp
  next
    case False
    then have nb: "\<not> w \<le> avail b" using assms(4) by simp
    show ?thesis using A B False nb assms(3,4) by simp
  qed
qed

lemma reads_equiv:
  "bs_inv a \<Longrightarrow> bs_inv b \<Longrightarrow> pending a = pending b \<Longrightarrow> avail a = avail b \<Longrightarrow>
   fst (reads a ws) = fst (reads b ws)"
proof (induction ws arbitrary: a b)
  case Nil
  then show ?case by simp
next
  case (Cons w ws)
  note E = read_equiv[OF Cons.prems, of w]
  have "fst (reads (snd (read a w)) ws) = fst (reads (snd (read b w)) ws)"
    using E by (intro Cons.IH read_inv Cons.prems) auto
  then show ?case using E by (simp only: reads_Cons_fst)
qed

lemma reads_recombine:
  "bs_inv bs \<Longrightarrow> \<forall>w\<in>set ws. 0 \<le> w \<and> w < 32 \<Longrightarrow> sum_list ws \<le> avail bs \<Longrightarrow>
   \<exists>vs. fst (reads bs ws) = map Inr vs \<and> recombine ws vs = pending bs mod 2 ^ nat (sum_list ws)"
proof (induction ws arbitrary: bs)
  case Nil
  then show ?case by simp
next
  case (Cons w ws)
  have w: "0 \<le> w" "w < 32" using Cons.prems(2) by auto
  have nn: "0 \<le> sum_list ws" using Cons.prems(2) by (intro sum_list_nonneg) auto
  have le: "w \<le> avail bs" using Cons.prems(3) nn by simp
  obtain r bs' where rd: "read bs w = (r, bs')" by (cases "read bs w")
  note S = read_spec[OF Cons.prems(1) w rd]
  obtain v where v: "r = Inr v" "unat v = pending bs mod 2 ^ nat w" using S le by auto
  have inv': "bs_inv bs'" and p': "pending bs' = pending bs div 2 ^ nat w"
    and a': "avail bs' = avail bs - w" using S le by auto
  have "sum_list ws \<le> avail bs'" using Cons.prems(3) a' by simp
  from Cons.IH[OF inv' _ this] Cons.prems(2)
  obtain vs where vs: "fst (reads bs' ws) = map Inr vs"
    "recombine ws vs = pending bs' mod 2 ^ nat (sum_list ws)" by auto
  have "recombine (w # ws) (v # vs) = pending bs mod 2 ^ nat w
      + 2 ^ nat w * ((pending bs div 2 ^ nat w) mod 2 ^ nat (sum_list ws))"
    by (simp add: v vs p')
  also have "\<dots> = pending bs mod (2 ^ nat w * 2 ^ nat (sum_list ws))"
    by (simp add: mod_mult2_eq)
  also have "\<dots> = pending bs mod 2 ^ nat (sum_list (w # ws))"
    using w nn by (simp add: nat_add_distrib power_add)
  finally have "recombine (w # ws) (v # vs) = pending bs mod 2 ^ nat (sum_list (w # ws))" .
  moreover have "fst (reads bs (w # ws)) = map Inr (v # vs)"
    using rd v vs by (simp add: reads_Cons_fst del: reads.simps)
  ultimately show ?case by blast
qed


subsection \<open>Claims about the bit stream\<close>

text \<open>
  Claim C9. On a stream created by \<open>createBitstream\<close>, after any sequence of \<open>read\<close>
  calls with any widths (valid or not, succeeding or failing) the number of buffered bits
  is at least 0 and below 64. The sequence is arbitrary, so this is the state before and
  after every single call.
\<close>

theorem buffered_between_0_and_64:
  "0 \<le> buffered (stream_after src ws) \<and> buffered (stream_after src ws) < 64"
  using reads_inv[OF bs_inv_create, of src ws] by (simp add: stream_after_def bs_inv_def)

theorem buffered_between_0_and_64_witness:
  "0 \<le> buffered (stream_after [0xC8, 0xC8, 0] [9, 40, 9, 9]) \<and>
   buffered (stream_after [0xC8, 0xC8, 0] [9, 40, 9, 9]) < 64"
  by (rule buffered_between_0_and_64)

text \<open>
  Claim C5. On any stream reached from a fresh one, \<open>read\<close> returns \<open>ErrEndOfStream\<close>
  exactly when the width is admissible (0 to 31; other widths are \<open>ErrBadParam\<close> before any
  byte is looked at) and exceeds the bits still available. When a \<open>read\<close> fails, every
  following sequence of reads returns what it would have returned on the stream as it was
  before the failed call.
\<close>

theorem read_EndOfStream_iff_and_failure_unobservable:
  "(fst (read (stream_after src ws0) w) = Inl ErrEndOfStream \<longleftrightarrow>
      0 \<le> w \<and> w < 32 \<and> avail (stream_after src ws0) < w) \<and>
   (\<forall>e. fst (read (stream_after src ws0) w) = Inl e \<longrightarrow>
      fst (reads (snd (read (stream_after src ws0) w)) ws) = fst (reads (stream_after src ws0) ws))"
proof -
  define bs where "bs = stream_after src ws0"
  have inv: "bs_inv bs" unfolding bs_def stream_after_def by (rule reads_inv[OF bs_inv_create])
  have 1: "fst (read bs w) = Inl ErrEndOfStream \<longleftrightarrow> 0 \<le> w \<and> w < 32 \<and> avail bs < w"
  proof (cases "0 \<le> w \<and> w < 32")
    case True
    then show ?thesis using read_spec'[OF inv, of w] by (cases "w \<le> avail bs") auto
  next
    case False
    then show ?thesis using read_BadParam[of w bs] by auto
  qed
  have 2: "fst (reads (snd (read bs w)) ws) = fst (reads bs ws)" if "fst (read bs w) = Inl e" for e
  proof (cases "0 \<le> w \<and> w < 32")
    case False
    then show ?thesis using read_BadParam[of w bs] by auto
  next
    case True
    have "pending (snd (read bs w)) = pending bs \<and> avail (snd (read bs w)) = avail bs"
      using read_spec'[OF inv, of w] True that
      by (cases "w \<le> avail bs") auto
    then show ?thesis by (intro reads_equiv read_inv inv) auto
  qed
  show ?thesis using 1 2 unfolding bs_def by blast
qed

theorem read_EndOfStream_iff_and_failure_unobservable_witness:
  "fst (read (stream_after [0xC8] []) 9) = Inl ErrEndOfStream \<and>
   avail (stream_after [0xC8] []) = 8 \<and>
   fst (reads (snd (read (stream_after [0xC8] []) 9)) [4, 4]) = [Inr 8, Inr 12]"
proof -
  have f: "fst (read (stream_after [0xC8] []) 9) = Inl ErrEndOfStream"
    by (simp add: stream_after_def createBitstream_def read_def refill.simps)
  have "fst (reads (snd (read (stream_after [0xC8] []) 9)) [4, 4]) = fst (reads (stream_after [0xC8] []) [4, 4])"
    using read_EndOfStream_iff_and_failure_unobservable[of "[0xC8]" "[]" 9 "[4, 4]"] f by blast
  also have "\<dots> = [Inr 8, Inr 12]"
    by (simp add: stream_after_def createBitstream_def read_def refill.simps)
  finally show ?thesis using f
    by (simp add: stream_after_def createBitstream_def avail_def)
qed

text \<open>
  Claim C6. Two sequences of admissible widths with the same total, at most the number of
  bits of the source, both succeed on a fresh stream, and their values recombined with the
  shifts of their own widths are the same number: the low \<open>total\<close> bits of the source read
  as one little-endian number (bit 0 of byte 0 first).
\<close>

theorem reads_chunking_independent:
  assumes "\<forall>w\<in>set ws1. 0 \<le> w \<and> w < 32" and "\<forall>w\<in>set ws2. 0 \<le> w \<and> w < 32"
    and "sum_list ws1 = sum_list ws2" and "sum_list ws1 \<le> 8 * int (length src)"
  shows "\<exists>vs1 vs2. fst (reads (createBitstream src) ws1) = map Inr vs1 \<and>
      fst (reads (createBitstream src) ws2) = map Inr vs2 \<and>
      recombine ws1 vs1 = recombine ws2 vs2 \<and>
      recombine ws1 vs1 = le_val src mod 2 ^ nat (sum_list ws1)"
proof -
  obtain vs1 where 1: "fst (reads (createBitstream src) ws1) = map Inr vs1"
     "recombine ws1 vs1 = le_val src mod 2 ^ nat (sum_list ws1)"
    using reads_recombine[OF bs_inv_create assms(1), of src] assms(4)
    by (auto simp: avail_create pending_create)
  obtain vs2 where 2: "fst (reads (createBitstream src) ws2) = map Inr vs2"
     "recombine ws2 vs2 = le_val src mod 2 ^ nat (sum_list ws2)"
    using reads_recombine[OF bs_inv_create assms(2), of src] assms(3,4)
    by (auto simp: avail_create pending_create)
  show ?thesis using 1 2 assms(3) by auto
qed

theorem reads_chunking_independent_witness:
  "fst (reads (createBitstream [0xAB, 0xCD]) [12]) = [Inr 0xDAB] \<and>
   fst (reads (createBitstream [0xAB, 0xCD]) [4, 8]) = [Inr 0xB, Inr 0xDA] \<and>
   recombine [12] [0xDAB] = recombine [4, 8] [0xB, 0xDA] \<and>
   (\<exists>vs1 vs2. fst (reads (createBitstream [0xAB, 0xCD]) [12]) = map Inr vs1 \<and>
      fst (reads (createBitstream [0xAB, 0xCD]) [4, 8]) = map Inr vs2 \<and>
      recombine [12] vs1 = recombine [4, 8] vs2 \<and>
      recombine [12] vs1 = le_val [0xAB, 0xCD] mod 2 ^ nat (sum_list [12]))"
proof -
  have a: "fst (reads (createBitstream [0xAB, 0xCD]) [12]) = [Inr 0xDAB]"
    by (simp add: createBitstream_def read_def refill.simps)
  have b: "fst (reads (createBitstream [0xAB, 0xCD]) [4, 8]) = [Inr 0xB, Inr 0xDA]"
    by (simp add: createBitstream_def read_def refill.simps)
  have c: "recombine [12] [0xDAB] = recombine [4, 8] [0xB, 0xDA]" by simp
  show ?thesis
    using a b c reads_chunking_independent[of "[12]" "[4, 8]" "[0xAB, 0xCD]"] by simp
qed


section \<open>The sample codec\<close>

text \<open>
  \<open>type ItSampleCodec struct { It215 bool; Is16 bool }\<close> and the two parameter sets.
  The field \<open>mask\<close> of the parameters is named \<open>maskP\<close> here; the decoder reads neither
  it nor the two tables.
\<close>

record ItSampleCodec =
  It215 :: bool
  Is16 :: bool

record ItSampleCodecParams =
  lowerTab :: "int list"
  upperTab :: "int list"
  fetchA :: int
  lowerB :: int
  upperB :: int
  defWidth :: int
  maskP :: int

definition ItSampleCodecParams16 :: ItSampleCodecParams where
  "ItSampleCodecParams16 = \<lparr>
     lowerTab = [0, -1, -3, -7, -15, -31, -56, -120, -248, -504, -1016, -2040, -4088, -8184, -16376, -32760, -32768],
     upperTab = [0, 1, 3, 7, 15, 31, 55, 119, 247, 503, 1015, 2039, 4087, 8183, 16375, 32759, 32767],
     fetchA = 4, lowerB = -8, upperB = 7, defWidth = 17, maskP = 0xFFFF\<rparr>"

definition ItSampleCodecParams8 :: ItSampleCodecParams where
  "ItSampleCodecParams8 = \<lparr>
     lowerTab = [0, -1, -3, -7, -15, -31, -60, -124, -128],
     upperTab = [0, 1, 3, 7, 15, 31, 59, 123, 127],
     fetchA = 3, lowerB = -4, upperB = 3, defWidth = 9, maskP = 0xFF\<rparr>"

text \<open>
  The \<open>io.Reader\<close> is the list of bytes it still has to give. \<open>readFull\<close> is
  \<open>io.ReadFull\<close> as \<open>binary.Read\<close> calls it: nothing is read for a buffer of length 0,
  \<open>EOF\<close> when no byte is left, \<open>ErrUnexpectedEOF\<close> when the bytes run out part way.
\<close>

definition readFull :: "byte list \<Rightarrow> nat \<Rightarrow> error + (byte list \<times> byte list)" where
  "readFull r n =
     (if n = 0 then Inr ([], r)
      else if r = [] then Inl EOF
      else if length r < n then Inl ErrUnexpectedEOF
      else Inr (take n r, drop n r))"

text \<open>\<open>getChunk\<close>: a little-endian \<open>uint16\<close> length, then that many bytes wrapped in a
  fresh bit stream.\<close>

definition getChunk :: "byte list \<Rightarrow> error + (bitstream \<times> byte list)" where
  "getChunk r =
     (case readFull r 2 of
        Inl e \<Rightarrow> Inl e
      | Inr (hdr, r1) \<Rightarrow>
          (let byteLength = unat (hdr ! 0) + 256 * unat (hdr ! 1) in
           case readFull r1 byteLength of
             Inl e \<Rightarrow> Inl e
           | Inr (bytes, r2) \<Rightarrow> Inr (createBitstream bytes, r2)))"

text \<open>
  The variables of \<open>decodeChunk\<close> that its closures and its loop change. The emitted
  samples are \<open>int16\<close>: 16-bit words, read as signed by \<open>sint\<close>.
\<close>

record chunk_state =
  dataSource :: bitstream
  width :: int
  mem1 :: int
  mem2 :: int
  decoded :: "16 word list"
  curLength :: int

definition changeWidth :: "chunk_state \<Rightarrow> int \<Rightarrow> chunk_state" where
  "changeWidth st toWidth =
     (let toWidth1 = toWidth + 1;
          toWidth2 = (if toWidth1 \<ge> width st then toWidth1 + 1 else toWidth1)
      in st\<lparr>width := toWidth2\<rparr>)"

text \<open>
  The closure \<open>write\<close> (the name is taken in Isabelle). \<open>int16(mem2)\<close> keeps the low 16
  bits of the Go \<open>int\<close>, which is \<open>word_of_int\<close>. Within one block \<open>mem1\<close> and \<open>mem2\<close>
  stay below \<open>2 ^ 47\<close> in size (at most 32768 steps of less than \<open>2 ^ 17\<close>), so the 64-bit
  \<open>int\<close> never wraps.
\<close>

definition write_sample :: "ItSampleCodec \<Rightarrow> chunk_state \<Rightarrow> int \<Rightarrow> int \<Rightarrow> chunk_state" where
  "write_sample c st v topBit =
     (let v1 = (if v AND topBit \<noteq> 0 then v - push_bit 1 topBit else v);
          m1 = mem1 st + v1;
          m2 = mem2 st + m1
      in st\<lparr>mem1 := m1, mem2 := m2,
            decoded := decoded st @ [if It215 c then word_of_int m2 else word_of_int m1],
            curLength := curLength st - 1\<rparr>)"

text \<open>One pass through the body of \<open>for curLength > 0\<close>: an error ends \<open>decodeChunk\<close>,
  otherwise the loop goes on with the new state. \<open>1 << (width - 1)\<close> panics for a negative
  count.\<close>

definition chunkStep :: "ItSampleCodec \<Rightarrow> ItSampleCodecParams \<Rightarrow> chunk_state \<Rightarrow> error + chunk_state" where
  "chunkStep c props st =
     (if width st > defWidth props then Inl ErrDecodingError
      else
        (case read (dataSource st) (width st) of
           (Inl e, ds) \<Rightarrow> Inl e
         | (Inr vu, ds) \<Rightarrow>
             if width st - 1 < 0 then Inl Panic
             else
               (let v = uint vu;
                    topBit = push_bit (nat (width st - 1)) (1::int);
                    st1 = st\<lparr>dataSource := ds\<rparr>
                in if width st \<le> 6 then
                     (if v = topBit then
                        (case read ds (fetchA props) of
                           (Inl e, ds2) \<Rightarrow> Inl e
                         | (Inr toWidth, ds2) \<Rightarrow>
                             Inr (changeWidth (st1\<lparr>dataSource := ds2\<rparr>) (uint toWidth)))
                      else Inr (write_sample c st1 v topBit))
                   else if width st < defWidth props then
                     (if v \<ge> topBit + lowerB props \<and> v \<le> topBit + upperB props
                      then Inr (changeWidth st1 (v - (topBit + lowerB props)))
                      else Inr (write_sample c st1 v topBit))
                   else
                     (if v AND topBit \<noteq> 0 then Inr (st1\<lparr>width := (v AND NOT topBit) + 1\<rparr>)
                      else Inr (write_sample c st1 (v AND NOT topBit) 0)))))"

text \<open>A successful pass takes at least one bit out of the chunk, which bounds the loop.\<close>

definition bits_left :: "bitstream \<Rightarrow> nat" where
  "bits_left bs = nat (buffered bs) + 8 * (length (source bs) - readPos bs)"

lemma refill_bits_left:
  "refill bs w = (ok, bs') \<Longrightarrow> bits_left bs' \<le> bits_left bs \<and> (ok \<longrightarrow> w \<le> buffered bs')"
proof (induction bs w arbitrary: ok bs' rule: refill.induct)
  case (1 bs width)
  show ?case
  proof (cases "buffered bs < width \<and> readPos bs < length (source bs)")
    case False
    then show ?thesis using "1.prems" by (auto simp: refill.simps[of bs width] split: if_splits)
  next
    case True
    define bs1 where "bs1 = bs\<lparr>buffer := buffer bs OR push_bit (nat (buffered bs)) (ucast (source bs ! readPos bs)),
                         readPos := readPos bs + 1, buffered := buffered bs + 8\<rparr>"
    have r: "refill bs1 width = (ok, bs')"
      using True "1.prems" by (simp add: refill.simps[of bs width] bs1_def)
    have "bits_left bs1 \<le> bits_left bs" using True by (auto simp: bits_left_def bs1_def)
    moreover have "bits_left bs' \<le> bits_left bs1 \<and> (ok \<longrightarrow> width \<le> buffered bs')"
      using "1.IH"[folded bs1_def, OF _ _ r] True by simp
    ultimately show ?thesis by simp
  qed
qed

lemma read_bits_left:
  assumes "read bs w = (Inr v, bs')"
  shows "bits_left bs' + nat w \<le> bits_left bs"
proof -
  have w: "0 \<le> w" "w < 32" using assms by (auto simp: read_def split: if_splits)
  obtain ok bs1 where f: "refill bs w = (ok, bs1)" by (cases "refill bs w")
  have ok: ok and bs': "bs' = bs1\<lparr>buffer := drop_bit (nat w) (buffer bs1), buffered := buffered bs1 - w\<rparr>"
    using assms f w by (auto simp: read_def split: if_splits bool.splits)
  have "bits_left bs1 \<le> bits_left bs" "w \<le> buffered bs1" using refill_bits_left[OF f] ok by auto
  moreover have "bits_left bs' + nat w = bits_left bs1" using \<open>w \<le> buffered bs1\<close> w
    by (simp add: bs' bits_left_def)
  ultimately show ?thesis by simp
qed

lemma chunkStep_bits_left:
  "chunkStep c props st = Inr st' \<Longrightarrow> bits_left (dataSource st') < bits_left (dataSource st)"
  by (auto simp: chunkStep_def changeWidth_def write_sample_def Let_def
      split: if_splits prod.splits sum.splits dest!: read_bits_left)

function chunkLoop :: "ItSampleCodec \<Rightarrow> ItSampleCodecParams \<Rightarrow> chunk_state \<Rightarrow> error + 16 word list" where
  "chunkLoop c props st =
     (if curLength st > 0 then
        (case chunkStep c props st of
           Inl e \<Rightarrow> Inl e
         | Inr st' \<Rightarrow> chunkLoop c props st')
      else Inr (decoded st))"
  by pat_completeness auto
termination
  by (relation "measure (\<lambda>(c, props, st). bits_left (dataSource st))")
     (auto dest: chunkStep_bits_left)

definition maxBlockLength :: "ItSampleCodec \<Rightarrow> int" where
  "maxBlockLength c = (if Is16 c then (32 * 1024) div 2 else 32 * 1024)"

definition codecProps :: "ItSampleCodec \<Rightarrow> ItSampleCodecParams" where
  "codecProps c = (if Is16 c then ItSampleCodecParams16 else ItSampleCodecParams8)"

definition decodeChunk :: "ItSampleCodec \<Rightarrow> byte list \<Rightarrow> int \<Rightarrow> error + (16 word list \<times> byte list)" where
  "decodeChunk c r remainingLength =
     (case getChunk r of
        Inl e \<Rightarrow> Inl e
      | Inr (ds, r') \<Rightarrow>
          (let curLen = min remainingLength (maxBlockLength c);
               props = codecProps c
           in case chunkLoop c props
                     \<lparr>dataSource = ds, width = defWidth props, mem1 = 0, mem2 = 0,
                      decoded = [], curLength = curLen\<rparr> of
                Inl e \<Rightarrow> Inl e
              | Inr d \<Rightarrow> Inr (d, r')))"

text \<open>Every chunk takes at least its two length bytes from the reader, which bounds the
  loop of \<open>Decode\<close>.\<close>

lemma readFull_length:
  "readFull r n = Inr (got, r') \<Longrightarrow> length got = n \<and> length r' + n = length r"
  by (auto simp: readFull_def split: if_splits)

lemma getChunk_consumes: "getChunk r = Inr (ds, r') \<Longrightarrow> length r' < length r"
  by (auto simp: getChunk_def Let_def split: sum.splits dest!: readFull_length)

lemma decodeChunk_consumes: "decodeChunk c r n = Inr (chunk, r') \<Longrightarrow> length r' < length r"
  by (auto simp: decodeChunk_def Let_def split: sum.splits dest: getChunk_consumes)

function DecodeLoop :: "ItSampleCodec \<Rightarrow> byte list \<Rightarrow> int \<Rightarrow> 16 word list \<Rightarrow> error + 16 word list" where
  "DecodeLoop c r remainingLength totalData =
     (if remainingLength > 0 then
        (case decodeChunk c r remainingLength of
           Inl e \<Rightarrow> Inl e
         | Inr (chunk, r') \<Rightarrow>
             DecodeLoop c r' (remainingLength - int (length chunk)) (totalData @ chunk))
      else Inr totalData)"
  by pat_completeness auto
termination
  by (relation "measure (\<lambda>(c, r, n, t). length r)") (auto dest: decodeChunk_consumes)

definition Decode :: "ItSampleCodec \<Rightarrow> byte list \<Rightarrow> int \<Rightarrow> error + 16 word list" where
  "Decode c r sampleLength = DecodeLoop c r sampleLength []"

declare chunkLoop.simps [simp del] DecodeLoop.simps [simp del]

text \<open>The narrowing a caller applies to 8-bit samples: \<open>data8[i] = int8(decoded[i])\<close> in
  \<open>ReadItSample\<close>.\<close>

definition narrow8 :: "16 word \<Rightarrow> 8 word" where
  "narrow8 x = ucast x"

subsection \<open>Sample counts\<close>

lemma chunkStep_count:
  "chunkStep c props st = Inr st' \<Longrightarrow>
   int (length (decoded st')) + curLength st' = int (length (decoded st)) + curLength st \<and>
   curLength st - 1 \<le> curLength st'"
  by (auto simp: chunkStep_def changeWidth_def write_sample_def Let_def
      split: if_splits prod.splits sum.splits)

lemma chunkLoop_length:
  "chunkLoop c props st = Inr d \<Longrightarrow>
   int (length d) = int (length (decoded st)) + max 0 (curLength st)"
proof (induction c props st rule: chunkLoop.induct)
  case (1 c props st)
  show ?case
  proof (cases "curLength st > 0")
    case False
    then show ?thesis using "1.prems" by (simp add: chunkLoop.simps[of c props st])
  next
    case True
    then obtain st' where s: "chunkStep c props st = Inr st'" and l: "chunkLoop c props st' = Inr d"
      using "1.prems" by (auto simp: chunkLoop.simps[of c props st] split: sum.splits)
    from "1.IH"[OF True s l] chunkStep_count[OF s] True show ?thesis by simp
  qed
qed

lemma decodeChunk_length:
  "decodeChunk c r n = Inr (chunk, r') \<Longrightarrow> int (length chunk) = max 0 (min n (maxBlockLength c))"
  by (auto simp: decodeChunk_def Let_def split: sum.splits dest!: chunkLoop_length)

lemma DecodeLoop_length:
  "DecodeLoop c r n acc = Inr d \<Longrightarrow> int (length d) = int (length acc) + max 0 n"
proof (induction c r n acc rule: DecodeLoop.induct)
  case (1 c r n acc)
  show ?case
  proof (cases "n > 0")
    case False
    then show ?thesis using "1.prems" by (simp add: DecodeLoop.simps[of c r n acc])
  next
    case True
    then obtain chunk r' where s: "decodeChunk c r n = Inr (chunk, r')"
      and l: "DecodeLoop c r' (n - int (length chunk)) (acc @ chunk) = Inr d"
      using "1.prems" by (auto simp: DecodeLoop.simps[of c r n acc] split: sum.splits)
    have "int (length chunk) \<le> n" using decodeChunk_length[OF s] True by simp
    with "1.IH"[OF True s refl l] show ?thesis by simp
  qed
qed



subsection \<open>Truncation of the accumulator\<close>

lemma uint_int16: "uint (word_of_int x :: 16 word) = x mod 2 ^ 16"
proof -
  have "uint (word_of_int x :: 16 word) = take_bit 16 x" by (simp add: uint_word_of_int_eq)
  then show ?thesis by (simp only: take_bit_eq_mod)
qed

lemma uint_narrow8: "uint (ucast (word_of_int x :: 16 word) :: 8 word) = x mod 2 ^ 8"
proof -
  have "uint (ucast (word_of_int x :: 16 word) :: 8 word) = take_bit 8 (take_bit 16 x)"
    by (simp add: unsigned_ucast_eq uint_word_of_int_eq)
  also have "\<dots> = take_bit 8 x" by (simp add: take_bit_take_bit)
  finally show ?thesis by (simp only: take_bit_eq_mod)
qed

subsection \<open>Reads beyond the payload\<close>








lemma read_Inr_inv:
  assumes "bs_inv bs" "read bs w = (Inr v, bs')"
  shows "bs_inv bs'"
  using read_inv[OF assms(1), of w] assms(2) by simp













subsection \<open>Claims about the sample codec\<close>

text \<open>
  Claim C2. For a positive \<open>sampleLength\<close> and any reader, \<open>Decode\<close> either fails (with an
  error and no data) or returns exactly \<open>sampleLength\<close> samples. \<open>Decode\<close> is a total
  function here, so one of the two always happens.
\<close>

theorem Decode_fails_or_exact_length:
  assumes "0 < sampleLength"
  shows "(\<exists>e. Decode c r sampleLength = Inl e) \<or>
         (\<exists>d. Decode c r sampleLength = Inr d \<and> int (length d) = sampleLength)"
proof (cases "Decode c r sampleLength")
  case (Inl e)
  then show ?thesis by simp
next
  case (Inr d)
  then show ?thesis using DecodeLoop_length[of c r sampleLength "[]" d] assms
    by (simp add: Decode_def)
qed

theorem Decode_fails_or_exact_length_witness:
  "Decode \<lparr>It215 = False, Is16 = False\<rparr> [3, 0, 0xC8, 0xC8, 0] 2 = Inr [200, 300] \<and>
   ((\<exists>e. Decode \<lparr>It215 = False, Is16 = False\<rparr> [3, 0, 0xC8, 0xC8, 0] 2 = Inl e) \<or>
    (\<exists>d. Decode \<lparr>It215 = False, Is16 = False\<rparr> [3, 0, 0xC8, 0xC8, 0] 2 = Inr d \<and>
         int (length d) = 2))"
proof -
  have "Decode \<lparr>It215 = False, Is16 = False\<rparr> [3, 0, 0xC8, 0xC8, 0] 2 = Inr [200, 300]"
    by (simp add: Decode_def DecodeLoop.simps decodeChunk_def getChunk_def readFull_def
      createBitstream_def chunkLoop.simps chunkStep_def read_def refill.simps
      codecProps_def ItSampleCodecParams8_def maxBlockLength_def write_sample_def Let_def)
  then show ?thesis
    using Decode_fails_or_exact_length[of 2 "\<lparr>It215 = False, Is16 = False\<rparr>" "[3, 0, 0xC8, 0xC8, 0]"]
    by simp
qed



text \<open>
  The width check comes before the read: a payload used up to its last bit by width
  changes that end above the maximum fails with \<open>ErrDecodingError\<close>, not \<open>ErrEndOfStream\<close>.
\<close>

lemma decodeChunk_width_guard_before_read: "decodeChunk \<lparr>It215 = False, Is16 = False\<rparr> [9,0, 8,17,34,68,136,16,33,194,255, 3,0,0xC8,0xC8,0] 1 = Inl ErrDecodingError"
  by (simp add: decodeChunk_def getChunk_def readFull_def
      createBitstream_def chunkLoop.simps chunkStep_def read_def refill.simps changeWidth_def
      codecProps_def ItSampleCodecParams8_def maxBlockLength_def write_sample_def Let_def)



text \<open>
  Claim C4, as stated, fails for 8-bit samples: \<open>write\<close> emits \<open>int16\<close> of the
  accumulator whatever the bit depth. Two 8-bit deltas of 200 and 100 bring \<open>mem1\<close> to 300,
  and the element emitted is 300, not \<open>300 mod 2 ^ 8 = 44\<close>.
\<close>

theorem write_sample_8bit_counterexample:
  "mem1 (write_sample \<lparr>It215 = False, Is16 = False\<rparr>
          (write_sample \<lparr>It215 = False, Is16 = False\<rparr>
             \<lparr>dataSource = createBitstream [], width = 9, mem1 = 0, mem2 = 0, decoded = [], curLength = 2\<rparr>
             200 0) 100 0) = 300 \<and>
   decoded (write_sample \<lparr>It215 = False, Is16 = False\<rparr>
          (write_sample \<lparr>It215 = False, Is16 = False\<rparr>
             \<lparr>dataSource = createBitstream [], width = 9, mem1 = 0, mem2 = 0, decoded = [], curLength = 2\<rparr>
             200 0) 100 0) = [200, 300] \<and>
   uint (300 :: 16 word) \<noteq> 300 mod 2 ^ 8 \<and>
   sint (300 :: 16 word) \<noteq> sint (word_of_int 300 :: 8 word) \<and>
   Decode \<lparr>It215 = False, Is16 = False\<rparr> [3, 0, 0xC8, 0xC8, 0] 2 = Inr [200, 300]"
  by (simp add: Decode_def DecodeLoop.simps decodeChunk_def getChunk_def readFull_def
      createBitstream_def chunkLoop.simps chunkStep_def read_def refill.simps
      codecProps_def ItSampleCodecParams8_def maxBlockLength_def write_sample_def Let_def)

text \<open>
  Claim C4, amended. Every element \<open>write\<close> emits is the accumulator as it stands after the
  step (\<open>mem2\<close> in It215 mode, \<open>mem1\<close> otherwise) truncated modulo \<open>2 ^ 16\<close>, for 8-bit and
  16-bit samples alike; the accumulators themselves are not truncated. For 8-bit samples
  the caller narrows each element to \<open>int8\<close>, and that value is the accumulator modulo
  \<open>2 ^ 8\<close>.
\<close>

theorem write_sample_emits_int16_of_accumulator:
  "decoded (write_sample c st v topBit) =
     decoded st @ [word_of_int (if It215 c then mem2 (write_sample c st v topBit)
                                else mem1 (write_sample c st v topBit))] \<and>
   uint (last (decoded (write_sample c st v topBit))) =
     (if It215 c then mem2 (write_sample c st v topBit)
      else mem1 (write_sample c st v topBit)) mod 2 ^ 16 \<and>
   uint (narrow8 (last (decoded (write_sample c st v topBit)))) =
     (if It215 c then mem2 (write_sample c st v topBit)
      else mem1 (write_sample c st v topBit)) mod 2 ^ 8 \<and>
   mem1 (write_sample c st v topBit) =
     mem1 st + (if v AND topBit \<noteq> 0 then v - 2 * topBit else v) \<and>
   mem2 (write_sample c st v topBit) = mem2 st + mem1 (write_sample c st v topBit)"
proof -
  define st' where "st' = write_sample c st v topBit"
  define acc where "acc = (if It215 c then mem2 st' else mem1 st')"
  have d: "decoded st' = decoded st @ [word_of_int acc]"
    by (simp add: st'_def acc_def write_sample_def Let_def)
  have l: "last (decoded st') = word_of_int acc" by (simp only: d last_snoc)
  have m: "mem1 st' = mem1 st + (if v AND topBit \<noteq> 0 then v - 2 * topBit else v)"
    "mem2 st' = mem2 st + mem1 st'"
    by (simp_all add: st'_def write_sample_def Let_def)
  show ?thesis
    unfolding st'_def[symmetric] acc_def[symmetric] l narrow8_def uint_int16 uint_narrow8
    using d m by simp
qed

end
